theory Spec2Isabelle
  imports Complex_Main "HOL-Library.Word" "HOL-Library.Sublist" "HOL-Library.Monad_Syntax"
begin

unbundle bit_operations_syntax

section \<open>Cijitter: the monitor of \<open>runsc/main.go\<close>\<close>

text \<open>
  The development embeds the detection-and-mitigation loop of \<open>gvisor/runsc/main.go\<close>:
  \<open>read_sample_logs\<close>, \<open>chk_prerequisites\<close>, \<open>exit_handler\<close>, \<open>get_target_addr\<close>,
  \<open>delayStates\<close>, \<open>judge_delay\<close> and the body of the endless loop of \<open>monitor\<close>.

  Conventions of the embedding.
  \<^item> Go's \<open>int\<close> and \<open>time.Duration\<close> are \<open>int\<close>; the word read from the log is an
    \<open>int64\<close> and is a \<open>64 word\<close>, \<open>int(k)\<close> is \<open>sint k\<close>. The counts and intervals
    the loop computes with stay far from \<open>2 ^ 63\<close>, and wrap-around of \<open>int\<close> is not modelled.
  \<^item> A \<open>[3]T\<close> array is the datatype \<open>arr3\<close>; an index outside \<open>0..2\<close> is Go's
    run-time panic and is the value \<open>None\<close>.
  \<^item> \<open>float64\<close> is \<open>real\<close>, without rounding; the two quotients of \<open>judge_delay\<close>,
    whose divisor can be zero, are values of \<open>float64\<close> below, which adds IEEE's
    \<open>+Inf\<close>, \<open>-Inf\<close> and \<open>NaN\<close>.
  \<^item> The file system, the shell commands and the process list are an environment
    record: each field is what the operation returns when \<open>get_target_addr\<close> performs it.
  \<^item> The loop of \<open>monitor\<close> never ends; one pass of its body is \<open>monitor_cycle\<close>, and
    \<open>monitor_loop\<close> runs it over a finite list of results of \<open>get_target_addr\<close>. What
    the loop does to the outside (channel sends, sleeps) is a list of events.
\<close>

subsection \<open>Go primitives\<close>

text \<open>Go's \<open>%\<close> truncates towards zero: the result has the sign of the dividend.\<close>

definition go_rem :: "int \<Rightarrow> int \<Rightarrow> int" where
  "go_rem a b = sgn a * (\<bar>a\<bar> mod \<bar>b\<bar>)"

text \<open>\<open>int(f)\<close> for a finite \<open>float64\<close>: the fraction is discarded.\<close>

definition go_int :: "real \<Rightarrow> int" where
  "go_int r = (if 0 \<le> r then \<lfloor>r\<rfloor> else \<lceil>r\<rceil>)"

definition digit_char :: "nat \<Rightarrow> char" where
  "digit_char d = ''0123456789abcdef'' ! d"

fun fmt_base :: "nat \<Rightarrow> nat \<Rightarrow> string" where
  "fmt_base b n =
     (if b < 2 \<or> n < b then [digit_char n]
      else fmt_base b (n div b) @ [digit_char (n mod b)])"

declare fmt_base.simps [simp del]

text \<open>\<open>strconv.Itoa\<close>: decimal digits, a leading \<open>-\<close> for a negative number.\<close>

definition Itoa :: "int \<Rightarrow> string" where
  "Itoa i = (if i < 0 then CHR ''-'' # fmt_base 10 (nat (- i)) else fmt_base 10 (nat i))"

text \<open>
  \<open>fmt.Sprintf("0x%x", k)\<close> for \<open>k\<close> of type \<open>int64\<close>: the verb \<open>%x\<close> prints a signed
  integer as its sign and the lower-case hexadecimal digits of its magnitude.
\<close>

definition Sprintf_0x :: "64 word \<Rightarrow> string" where
  "Sprintf_0x k =
     ''0x'' @ (if sint k < 0 then CHR ''-'' # fmt_base 16 (nat (- sint k))
               else fmt_base 16 (nat (sint k)))"

text \<open>\<open>strings.Contains(s, substr)\<close>.\<close>

fun Contains :: "string \<Rightarrow> string \<Rightarrow> bool" where
  "Contains [] substr = (substr = [])"
| "Contains (c # cs) substr = (prefix substr (c # cs) \<or> Contains cs substr)"

datatype 'a arr3 = Arr3 'a 'a 'a

fun arr_get :: "'a arr3 \<Rightarrow> int \<Rightarrow> 'a option" where
  "arr_get (Arr3 x0 x1 x2) i =
     (if i = 0 then Some x0 else if i = 1 then Some x1 else if i = 2 then Some x2 else None)"

fun arr_set :: "'a arr3 \<Rightarrow> int \<Rightarrow> 'a \<Rightarrow> 'a arr3 option" where
  "arr_set (Arr3 x0 x1 x2) i v =
     (if i = 0 then Some (Arr3 v x1 x2) else if i = 1 then Some (Arr3 x0 v x2)
      else if i = 2 then Some (Arr3 x0 x1 v) else None)"

subsection \<open>The sample log: \<open>read_sample_logs\<close>\<close>

type_synonym byte = "8 word"

text \<open>\<open>binary.LittleEndian.Uint64\<close> on a slice of eight bytes.\<close>

definition le_uint64 :: "byte list \<Rightarrow> 64 word" where
  "le_uint64 b =
     ucast (b ! 0) OR push_bit 8 (ucast (b ! 1)) OR push_bit 16 (ucast (b ! 2))
     OR push_bit 24 (ucast (b ! 3)) OR push_bit 32 (ucast (b ! 4))
     OR push_bit 40 (ucast (b ! 5)) OR push_bit 48 (ucast (b ! 6))
     OR push_bit 56 (ucast (b ! 7))"

text \<open>
  \<open>binary.Read(bytes.NewBuffer(data), binary.LittleEndian, &k)\<close> with \<open>k\<close> an \<open>int64\<close>:
  it needs eight bytes; on a shorter buffer it returns an error, which the caller drops,
  and leaves \<open>k\<close> as it was.
\<close>

definition binary_Read :: "byte list \<Rightarrow> 64 word \<Rightarrow> 64 word" where
  "binary_Read data k = (if length data < 8 then k else le_uint64 (take 8 data))"

text \<open>
  The read loop. \<open>fp\<close> is what is left of the file; \<open>fp.Read(data)\<close> on a buffer of
  eight bytes returns the next \<open>min 8 (length fp)\<close> bytes, and \<open>io.EOF\<close> when nothing is
  left, which ends the loop. The other arguments are the local variables of the function.
\<close>

function read_loop ::
  "byte list \<Rightarrow> 64 word \<Rightarrow> int \<Rightarrow> int \<Rightarrow> string \<Rightarrow> string list \<Rightarrow> (string \<rightharpoonup> int)
     \<Rightarrow> string list \<times> (string \<rightharpoonup> int)" where
  "read_loop fp k index loc addr addrs_order addr_access =
     (if fp = [] then (addrs_order, addr_access)
      else
        let data = take 8 fp;
            k = binary_Read data k;
            is_addr = (go_rem index 3 = 0);
            addr = (if is_addr then Sprintf_0x k else addr);
            addrs_order = (if is_addr then addrs_order @ [addr] else addrs_order);
            loc = (if is_addr then index + 2 else loc);
            addr_access = (if index = loc then addr_access(addr \<mapsto> sint k) else addr_access)
        in read_loop (drop 8 fp) k (index + 1) loc addr addrs_order addr_access)"
  by pat_completeness auto
termination
  by (relation "measure (\<lambda>(fp, _). length fp)") auto

declare read_loop.simps [simp del]

text \<open>The file at \<open>logPath\<close> is \<open>None\<close> when \<open>os.Open\<close> fails, else its bytes.\<close>

definition read_sample_logs :: "byte list option \<Rightarrow> string list \<times> (string \<rightharpoonup> int)" where
  "read_sample_logs file =
     (case file of
        None \<Rightarrow> ([], Map.empty)
      | Some fp \<Rightarrow> read_loop fp 0 0 0 ''0x000000'' [] Map.empty)"

text \<open>Indexing a Go map: a missing key reads as the zero value.\<close>

definition map_index :: "(string \<rightharpoonup> int) \<Rightarrow> string \<Rightarrow> int" where
  "map_index m key = (case m key of None \<Rightarrow> 0 | Some v \<Rightarrow> v)"

subsection \<open>The profiler cycle: \<open>chk_prerequisites\<close>, \<open>exit_handler\<close>, \<open>get_target_addr\<close>\<close>

text \<open>
  \<open>os.Stat\<close> returns an error, a directory or something else. The environment gives, for
  each operation on the outside, its outcome at the moment the code performs it;
  \<open>get_pid\<close> is the list that the function of that name returns.
\<close>

datatype stat_result = Stat_err | Stat_dir | Stat_other

record env =
  get_pid :: "string list"
  stat_logPath :: stat_result
  stat_DBGFS :: stat_result
  insmod_ok :: bool
  stat_DBGFS_PIDS :: stat_result
  rmmod_ok :: bool
  log_file :: "byte list option"

text \<open>What the functions do to the outside, in the order they do it.\<close>

datatype action =
  Rename_log | Insmod | Echo_pid string | Tracing_on | Sleep_100ms | Tracing_off | Rmmod
  | Open_log

definition chk_prerequisites :: "env \<Rightarrow> bool \<times> action list" where
  "chk_prerequisites e =
     (let saved = (if stat_logPath e = Stat_other then [Rename_log] else []) in
      if stat_DBGFS e \<noteq> Stat_dir \<and> \<not> insmod_ok e then (False, saved @ [Insmod])
      else
        let loaded = saved @ (if stat_DBGFS e \<noteq> Stat_dir then [Insmod] else []) in
        if stat_DBGFS_PIDS e \<noteq> Stat_other then (False, loaded) else (True, loaded))"

definition exit_handler :: "env \<Rightarrow> bool \<times> action list" where
  "exit_handler e = (rmmod_ok e, [Rmmod])"

text \<open>
  The body of \<open>for _, pid := range targets\<close>. Every path through it returns or breaks, so
  the loop never reaches a second target; after the loop the function returns
  \<open>addr, access, false\<close> with the initial \<open>addr = ""\<close> and \<open>access = -1\<close>.
\<close>

fun get_target_addr_loop :: "env \<Rightarrow> string list \<Rightarrow> (string \<times> int \<times> bool) \<times> action list" where
  "get_target_addr_loop e [] = (([], - 1, False), [])"
| "get_target_addr_loop e (pid # targets) =
     (case chk_prerequisites e of (stat, a1) \<Rightarrow>
        if \<not> stat then (([], - 1, False), a1)
        else
          let a2 = a1 @ [Echo_pid pid, Tracing_on, Sleep_100ms, Tracing_off] in
          case exit_handler e of (removed, a3) \<Rightarrow>
            if \<not> removed then (([], - 1, False), a2 @ a3)
            else
              case read_sample_logs (log_file e) of (addr_order, addrs_access) \<Rightarrow>
                if length addr_order = 0 then (([], - 1, False), a2 @ a3 @ [Open_log])
                else ((addr_order ! 0, map_index addrs_access (addr_order ! 0), True),
                      a2 @ a3 @ [Open_log]))"

definition get_target_addr :: "env \<Rightarrow> (string \<times> int \<times> bool) \<times> action list" where
  "get_target_addr e =
     (if length (get_pid e) = 0 then (([], - 1, False), [])
      else get_target_addr_loop e (get_pid e))"

subsection \<open>The decision engine: \<open>delayStates\<close> and \<open>judge_delay\<close>\<close>

definition duration :: int where
  "duration = 8050"

definition interval :: int where
  "interval = 500"

text \<open>
  The loop \<open>for i:=0; i<3; i++\<close> of \<open>delayStates\<close>, with \<open>n\<close> the passes left, followed by
  the code after it.
\<close>

fun delayStates_for :: "nat \<Rightarrow> bool arr3 \<Rightarrow> int \<Rightarrow> bool \<Rightarrow> int \<Rightarrow> (int \<times> bool) option" where
  "delayStates_for 0 last_delay index status delay_interval =
     (let delay_interval = delay_interval * 10;
          delay_interval = (if delay_interval > 30000 then 30000 else delay_interval)
      in Some (delay_interval, status))"
| "delayStates_for (Suc n) last_delay index status delay_interval =
     do {
       mitigated \<leftarrow> arr_get last_delay (go_rem index 3);
       if mitigated then Some (interval, status)
       else delayStates_for n last_delay index status delay_interval
     }"

definition delayStates :: "bool arr3 \<Rightarrow> int \<Rightarrow> int \<Rightarrow> (int \<times> bool) option" where
  "delayStates last_delay index delay_interval =
     (if index = 0 then Some (interval, True)
      else do {
        status \<leftarrow> arr_get last_delay (go_rem (index - 1) 3);
        delayStates_for 3 last_delay index status delay_interval
      })"

text \<open>
  A quotient of two finite \<open>float64\<close> values: IEEE 754 division does not trap. A zero
  divisor gives an infinity with the sign of the dividend, and \<open>NaN\<close> for \<open>0/0\<close> (the
  zeros that occur here are positive: they come from \<open>float64\<close> of the integer 0, from a
  sum of squares or from its root). A comparison with \<open>NaN\<close> is false.
\<close>

datatype float64 = Finite real | PosInf | NegInf | NaN

definition fdiv :: "real \<Rightarrow> real \<Rightarrow> float64" where
  "fdiv x y =
     (if y \<noteq> 0 then Finite (x / y)
      else if 0 < x then PosInf else if x < 0 then NegInf else NaN)"

fun fle :: "float64 \<Rightarrow> real \<Rightarrow> bool" where
  "fle (Finite x) c = (x \<le> c)"
| "fle PosInf c = False"
| "fle NegInf c = True"
| "fle NaN c = False"

fun arr_list :: "'a arr3 \<Rightarrow> 'a list" where
  "arr_list (Arr3 x0 x1 x2) = [x0, x1, x2]"

text \<open>The two loops over \<open>i = 0, 1, 2\<close> of \<open>judge_delay\<close>, and the values it derives.\<close>

definition window_mean :: "int arr3 \<Rightarrow> real" where
  "window_mean access = real_of_int (fold (\<lambda>a sum. sum + a) (arr_list access) 0) / 3"

definition window_stddev :: "int arr3 \<Rightarrow> real" where
  "window_stddev access =
     (let mean = window_mean access;
          std = fold (\<lambda>a std. std + (real_of_int a - mean) * (real_of_int a - mean))
                  (arr_list access) 0
      in sqrt std)"

definition window_ratio :: "int arr3 \<Rightarrow> float64" where
  "window_ratio access = fdiv (window_stddev access) (window_mean access)"

definition window_count :: "int arr3 \<Rightarrow> int \<Rightarrow> float64 option" where
  "window_count access index =
     do {
       cur \<leftarrow> arr_get access index;
       prev \<leftarrow> arr_get access (go_rem (index + 2) 3);
       let diff = (if cur > prev then cur - prev else prev - cur);
       Some (fdiv (real_of_int diff) (real_of_int prev))
     }"

definition judge_delay :: "int arr3 \<Rightarrow> int \<Rightarrow> bool option" where
  "judge_delay access index =
     do {
       count \<leftarrow> window_count access index;
       let mean = window_mean access;
       let ratio = window_ratio access;
       Some (if fle count (1 / 10) \<or> fle ratio (2 / 10)
                \<or> (fle ratio (35 / 100) \<and> fle count (35 / 100))
             then (if mean < 100 then False else True)
             else False)
     }"

subsection \<open>The control loop: \<open>monitor\<close>\<close>

datatype event = Send_start string | Send_stop string | Sleep int

record monitor_state =
  last_addr_acc :: "int arr3"
  last_delay :: "bool arr3"
  index :: int
  delay_interval :: int

definition monitor_init :: monitor_state where
  "monitor_init =
     \<lparr>last_addr_acc = Arr3 500 500 500, last_delay = Arr3 True True True,
      index = 0, delay_interval = interval\<rparr>"

definition stopSig :: string where
  "stopSig = ''0x00000 0''"

text \<open>The value \<open>acc_cmp\<close> (``make up'').\<close>

definition make_up :: "bool \<Rightarrow> int \<Rightarrow> int \<Rightarrow> int" where
  "make_up dstats acc_num last_acc =
     (if dstats \<and> acc_num < last_acc
      then acc_num + go_int (real_of_int (last_acc - acc_num) * (67 / 100))
      else acc_num)"

text \<open>The end of the loop body, from ``notify: delay target address'' on.\<close>

definition notify :: "monitor_state \<Rightarrow> int \<Rightarrow> string \<Rightarrow> string \<Rightarrow> (monitor_state \<times> event list) option" where
  "notify s inx addr addr_acc =
     do {
       flags \<leftarrow> arr_set (last_delay s) inx True;
       Some (s\<lparr>last_delay := flags, delay_interval := interval\<rparr>,
             (if Contains addr ''0x'' then [Send_start addr_acc] else [])
             @ [Sleep duration, Send_stop stopSig, Sleep interval])
     }"

text \<open>
  One pass of the loop body, on the result \<open>(addr, acc_num, err)\<close> of \<open>get_target_addr\<close>
  (the source names the success flag \<open>err\<close>).
\<close>

definition monitor_cycle ::
  "monitor_state \<Rightarrow> string \<times> int \<times> bool \<Rightarrow> (monitor_state \<times> event list) option" where
  "monitor_cycle s r =
     (case r of (addr, acc_num, err) \<Rightarrow>
        if \<not> err then Some (s, [Sleep (delay_interval s)])
        else do {
          let addr_acc = addr @ '' '' @ Itoa acc_num;
          let inx = go_rem (index s) 3;
          (delay_int, dstats) \<leftarrow> delayStates (last_delay s) (index s) (delay_interval s);
          let s = s\<lparr>delay_interval := delay_int, index := index s + 1\<rparr>;
          old_acc \<leftarrow> arr_get (last_addr_acc s) inx;
          last_acc \<leftarrow> arr_get (last_addr_acc s) (go_rem (inx + 2) 3);
          let acc_cmp = make_up dstats acc_num last_acc;
          window \<leftarrow> arr_set (last_addr_acc s) inx acc_cmp;
          if acc_num > 3000 then do {
            window \<leftarrow> arr_set window inx old_acc;
            notify (s\<lparr>last_addr_acc := window\<rparr>) inx addr addr_acc
          }
          else do {
            strip \<leftarrow> (if acc_cmp \<le> 80 then Some True
                      else map_option Not (judge_delay window inx));
            if strip then do {
              window \<leftarrow> (if dstats then arr_set window inx old_acc else Some window);
              flags \<leftarrow> arr_set (last_delay s) inx False;
              Some (s\<lparr>last_addr_acc := window, last_delay := flags\<rparr>,
                    [Sleep (delay_interval s)])
            }
            else notify (s\<lparr>last_addr_acc := window\<rparr>) inx addr addr_acc
          }
        })"

text \<open>The loop over a finite list of results of \<open>get_target_addr\<close>, and its events.\<close>

fun monitor_loop ::
  "monitor_state \<Rightarrow> (string \<times> int \<times> bool) list \<Rightarrow> (monitor_state \<times> event list) option" where
  "monitor_loop s [] = Some (s, [])"
| "monitor_loop s (r # rs) =
     do {
       (s, ev) \<leftarrow> monitor_cycle s r;
       (s, evs) \<leftarrow> monitor_loop s rs;
       Some (s, ev @ evs)
     }"

text \<open>\<open>monitor\<close>: the warm-up sleep of 40 seconds, then the loop from the initial state.\<close>

definition monitor :: "(string \<times> int \<times> bool) list \<Rightarrow> (monitor_state \<times> event list) option" where
  "monitor rs =
     do {
       (s, evs) \<leftarrow> monitor_loop monitor_init rs;
       Some (s, Sleep 40000 # evs)
     }"

section \<open>Notions used to state the properties\<close>

subsection \<open>Well-formed logs\<close>

text \<open>
  A record of the log is three words of eight bytes: address, padding, count. A log of
  \<open>N\<close> well-formed records is the concatenation of their \<open>24 * N\<close> bytes.
\<close>

type_synonym triple = "byte list \<times> byte list \<times> byte list"

definition wf_triple :: "triple \<Rightarrow> bool" where
  "wf_triple t = (case t of (a, p, c) \<Rightarrow> length a = 8 \<and> length p = 8 \<and> length c = 8)"

definition triple_bytes :: "triple \<Rightarrow> byte list" where
  "triple_bytes t = (case t of (a, p, c) \<Rightarrow> a @ p @ c)"

definition log_bytes :: "triple list \<Rightarrow> byte list" where
  "log_bytes ts = concat (map triple_bytes ts)"

text \<open>The address of a record as the decoder prints it, and its count.\<close>

definition rec_addr :: "triple \<Rightarrow> string" where
  "rec_addr t = (case t of (a, p, c) \<Rightarrow> Sprintf_0x (le_uint64 a))"

definition rec_count :: "triple \<Rightarrow> int" where
  "rec_count t = (case t of (a, p, c) \<Rightarrow> sint (le_uint64 c))"

text \<open>The mapping that binds an address to the count of the last record that carries it.\<close>

definition last_binding :: "triple list \<Rightarrow> (string \<rightharpoonup> int)" where
  "last_binding ts a =
     (case filter (\<lambda>t. rec_addr t = a) ts of
        [] \<Rightarrow> None
      | r # rs \<Rightarrow> Some (rec_count (last (r # rs))))"

text \<open>The last word of a log of whole records (the count of its last record).\<close>

definition last_word :: "triple list \<Rightarrow> 64 word" where
  "last_word ts = (if ts = [] then 0 else le_uint64 (snd (snd (last ts))))"

text \<open>
  The address decoded from a trailing partial record: its first word when the record
  has one, else the word decoded last before it.
\<close>

definition partial_addr :: "triple list \<Rightarrow> byte list \<Rightarrow> string" where
  "partial_addr ts extra =
     Sprintf_0x (if length extra < 8 then last_word ts else le_uint64 (take 8 extra))"

subsection \<open>Slots and interval sequences\<close>

text \<open>The slot of a window that cycle \<open>i\<close> visits, \<open>i mod 3\<close>.\<close>

definition slot :: "'a arr3 \<Rightarrow> int \<Rightarrow> 'a" where
  "slot w i = arr_list w ! nat (i mod 3)"


subsection \<open>Windows and the events of the control loop\<close>

text \<open>The window with the slot that cycle \<open>i\<close> visits set to \<open>v\<close>.\<close>

definition slot_upd :: "'a arr3 \<Rightarrow> int \<Rightarrow> 'a \<Rightarrow> 'a arr3" where
  "slot_upd w i v =
     (case w of Arr3 x0 x1 x2 \<Rightarrow>
        if i mod 3 = 0 then Arr3 v x1 x2
        else if i mod 3 = 1 then Arr3 x0 v x2 else Arr3 x0 x1 v)"

text \<open>
  The adjusted count of a cycle in state \<open>s\<close> with the raw count \<open>acc_num\<close>: \<open>make_up\<close> on
  the status that \<open>delayStates\<close> returns and on the slot two positions on.
\<close>

definition adjusted :: "monitor_state \<Rightarrow> int \<Rightarrow> int" where
  "adjusted s acc_num =
     make_up (case delayStates (last_delay s) (index s) (delay_interval s) of
                Some (d, dstats) \<Rightarrow> dstats | None \<Rightarrow> False)
       acc_num (slot (last_addr_acc s) (index s + 2))"

text \<open>
  The events of a mitigating cycle: the start directive when the address contains
  \<open>0x\<close>, the mitigation window, the stop directive, the baseline sleep.
\<close>

definition directives :: "string \<Rightarrow> string \<Rightarrow> event list" where
  "directives addr addr_acc =
     (if Contains addr ''0x'' then [Send_start addr_acc] else [])
     @ [Sleep duration, Send_stop stopSig, Sleep interval]"

text \<open>
  Whether a directive is active after a list of events, given whether one was active
  before; and whether no start directive is sent while one is active.
\<close>

fun active_after :: "bool \<Rightarrow> event list \<Rightarrow> bool" where
  "active_after a [] = a"
| "active_after a (Send_start p # es) = active_after True es"
| "active_after a (Send_stop p # es) = active_after False es"
| "active_after a (Sleep d # es) = active_after a es"

fun no_overlap :: "bool \<Rightarrow> event list \<Rightarrow> bool" where
  "no_overlap a [] = True"
| "no_overlap a (Send_start p # es) = (\<not> a \<and> no_overlap True es)"
| "no_overlap a (Send_stop p # es) = no_overlap False es"
| "no_overlap a (Sleep d # es) = no_overlap a es"

subsection \<open>The classifier in the words of the specification\<close>

text \<open>
  The standard deviation of the three values: the root of the sum of the squared
  deviations from the mean divided by \<open>n\<close>, with \<open>n = 3\<close> for the population and \<open>n = 2\<close>
  for the sample standard deviation.
\<close>

definition standard_deviation :: "real \<Rightarrow> int arr3 \<Rightarrow> real" where
  "standard_deviation n access =
     (let mean = (\<Sum>a\<leftarrow>arr_list access. real_of_int a) / 3
      in sqrt ((\<Sum>a\<leftarrow>arr_list access. (real_of_int a - mean)\<^sup>2) / n))"

text \<open>
  \<open>isSuspicious\<close> at the slot \<open>s mod 3\<close>, compared with the slot \<open>(s + 2) mod 3\<close>:
  \<open>stable AND mean \<ge> 100\<close>.
\<close>

definition isSuspicious_spec :: "real \<Rightarrow> int arr3 \<Rightarrow> int \<Rightarrow> bool" where
  "isSuspicious_spec n access s =
     (let current = slot access s;
          prev = slot access (s + 2);
          mean = (\<Sum>a\<leftarrow>arr_list access. real_of_int a) / 3;
          coefficientOfVariation = fdiv (standard_deviation n access) mean;
          relativeDelta = fdiv (real_of_int \<bar>current - prev\<bar>) (real_of_int prev);
          stable = (fle relativeDelta (1 / 10) \<or> fle coefficientOfVariation (2 / 10)
                    \<or> (fle coefficientOfVariation (35 / 100) \<and> fle relativeDelta (35 / 100)))
      in stable \<and> mean \<ge> 100)"

section \<open>Properties\<close>

subsection \<open>Go primitives and arrays\<close>

lemma go_rem_3_0: "go_rem a 3 = 0 \<longleftrightarrow> 3 dvd a"
  by (auto simp: go_rem_def sgn_if dvd_eq_mod_eq_0 zmod_zminus1_eq_if split: if_splits)

lemma go_rem_nonneg: "0 \<le> a \<Longrightarrow> go_rem a 3 = a mod 3"
  by (simp add: go_rem_def sgn_if)

lemma mod3_cases: "(i::int) mod 3 = 0 \<or> i mod 3 = 1 \<or> i mod 3 = 2"
  by presburger

lemma arr_get_slot: "arr_get w (i mod 3) = Some (slot w i)"
  using mod3_cases [of i] by (cases w) (auto simp: slot_def)

lemma arr_set_mod3: "\<exists>w'. arr_set w (i mod 3) v = Some w'"
  using mod3_cases [of i] by (cases w) auto

subsection \<open>The decoder\<close>

text \<open>
  \<open>le_uint64\<close> reads the bytes in little-endian order: bit \<open>n\<close> of the word is bit
  \<open>n mod 8\<close> of the byte \<open>n div 8\<close>.
\<close>

lemma bit_byte_low: "bit (w :: byte) m \<Longrightarrow> m < 8"
  using bit_imp_le_length [of w m] by simp

lemma bit_ucast_byte:
  "bit (ucast (w :: byte) :: 64 word) n \<longleftrightarrow> n < 8 \<and> bit w n"
  using bit_byte_low [of w n] by (auto simp: bit_ucast_iff)

lemma bit_shifted_byte:
  "bit (push_bit j (ucast (w :: byte) :: 64 word)) n \<longleftrightarrow>
     j \<le> n \<and> n < 64 \<and> n - j < 8 \<and> bit w (n - j)"
  by (auto simp: bit_push_bit_iff bit_ucast_byte)

lemma bit_le_uint64_at:
  assumes "m < 8" and "k < 8"
  shows "bit (le_uint64 b) (8 * k + m) \<longleftrightarrow> bit (b ! k) m"
proof -
  have k8: "k = 0 \<or> k = 1 \<or> k = 2 \<or> k = 3 \<or> k = 4 \<or> k = 5 \<or> k = 6 \<or> k = 7"
    using assms(2) by arith
  show ?thesis
    unfolding le_uint64_def bit_or_iff bit_shifted_byte bit_ucast_byte
    using k8 assms(1) by (elim disjE) simp_all
qed

lemma bit_le_uint64:
  assumes "n < 64"
  shows "bit (le_uint64 b) n \<longleftrightarrow> bit (b ! (n div 8)) (n mod 8)"
proof -
  have "n mod 8 < 8" "n div 8 < 8" using assms by simp_all
  then show ?thesis using bit_le_uint64_at [of "n mod 8" "n div 8" b] by simp
qed

lemma read_loop_Nil: "read_loop [] k i loc addr order m = (order, m)"
  by (simp add: read_loop.simps)

text \<open>One pass of the read loop, the two cases of \<open>index % 3 == 0\<close> apart.\<close>

lemma read_loop_step:
  "fp \<noteq> [] \<Longrightarrow>
   read_loop fp k i loc addr order m =
     (let k' = binary_Read (take 8 fp) k in
      if 3 dvd i
      then read_loop (drop 8 fp) k' (i + 1) (i + 2) (Sprintf_0x k') (order @ [Sprintf_0x k']) m
      else read_loop (drop 8 fp) k' (i + 1) loc addr order
             (if i = loc then m(addr \<mapsto> sint k') else m))"
  by (subst read_loop.simps) (simp add: Let_def go_rem_3_0)

lemma binary_Read_word: "length w = 8 \<Longrightarrow> binary_Read w k = le_uint64 w"
  by (simp add: binary_Read_def)

lemma last_binding_Cons:
  "m(rec_addr t \<mapsto> rec_count t) ++ last_binding ts = m ++ last_binding (t # ts)"
  by (auto simp: last_binding_def fun_eq_iff map_add_def split: option.splits list.splits)

lemma last_binding_Nil: "last_binding [] = Map.empty"
  by (simp add: last_binding_def fun_eq_iff)

lemma last_binding_single: "last_binding [t] = [rec_addr t \<mapsto> rec_count t]"
  by (simp add: last_binding_def fun_eq_iff)

text \<open>Three passes consume one well-formed record.\<close>

lemma read_loop_triple:
  assumes "wf_triple t" and "3 dvd i"
  shows "read_loop (triple_bytes t @ rest) k i loc addr order m =
         read_loop rest (le_uint64 (snd (snd t))) (i + 3) (i + 2) (rec_addr t)
           (order @ [rec_addr t]) (m(rec_addr t \<mapsto> rec_count t))"
proof -
  obtain a p c where t: "t = (a, p, c)" by (cases t)
  with assms(1) have len: "length a = 8" "length p = 8" "length c = 8"
    by (simp_all add: wf_triple_def)
  have nz: "a @ p @ c @ rest \<noteq> []" "p @ c @ rest \<noteq> []" "c @ rest \<noteq> []"
    using len by auto
  have d1: "\<not> 3 dvd (i + 1)" and d2: "\<not> 3 dvd (i + 2)" using assms(2) by presburger+
  have i2: "i + 1 + 1 = i + 2" and i3: "i + 2 + 1 = i + 3" by simp_all
  let ?A = "Sprintf_0x (le_uint64 a)"
  have "read_loop (a @ p @ c @ rest) k i loc addr order m =
        read_loop (p @ c @ rest) (le_uint64 a) (i + 1) (i + 2) ?A (order @ [?A]) m"
    using len assms(2) by (simp add: read_loop_step [OF nz(1)] binary_Read_word Let_def)
  also have "\<dots> = read_loop (c @ rest) (le_uint64 p) (i + 2) (i + 2) ?A (order @ [?A]) m"
    using len d1 by (simp add: read_loop_step [OF nz(2)] binary_Read_word Let_def i2)
  also have "\<dots> = read_loop rest (le_uint64 c) (i + 3) (i + 2) ?A (order @ [?A])
                      (m(?A \<mapsto> sint (le_uint64 c)))"
    using len d2 by (simp add: read_loop_step [OF nz(3)] binary_Read_word Let_def i3)
  finally show ?thesis
    by (simp add: t triple_bytes_def rec_addr_def rec_count_def)
qed

text \<open>The state of the loop after a non-empty log of well-formed records.\<close>

lemma read_loop_log:
  assumes "\<forall>t\<in>set ts. wf_triple t" and "3 dvd i" and "ts \<noteq> []"
  shows "read_loop (log_bytes ts @ rest) k i loc addr order m =
         read_loop rest (last_word ts) (i + 3 * int (length ts)) (i + 3 * int (length ts) - 1)
           (rec_addr (last ts)) (order @ map rec_addr ts) (m ++ last_binding ts)"
  using assms
proof (induction ts arbitrary: k i loc addr order m)
  case Nil
  then show ?case by simp
next
  case (Cons t ts)
  have wf: "wf_triple t" and wfs: "\<forall>t\<in>set ts. wf_triple t" using Cons.prems(1) by auto
  let ?m1 = "m(rec_addr t \<mapsto> rec_count t)"
  have bytes: "log_bytes (t # ts) @ rest = triple_bytes t @ log_bytes ts @ rest"
    by (simp add: log_bytes_def)
  have step: "read_loop (log_bytes (t # ts) @ rest) k i loc addr order m =
      read_loop (log_bytes ts @ rest) (le_uint64 (snd (snd t))) (i + 3) (i + 2) (rec_addr t)
           (order @ [rec_addr t]) ?m1"
    unfolding bytes by (rule read_loop_triple [OF wf Cons.prems(2)])
  show ?case
  proof (cases "ts = []")
    case True
    note e = last_binding_single [of t]
    have f1: "m ++ last_binding [t] = ?m1" unfolding e by simp
    have f2: "i + 3 * int (length [t]) = i + 3" and f3: "i + 3 - 1 = i + 2" by simp_all
    have f4: "log_bytes [] @ rest = rest" by (simp add: log_bytes_def)
    have f5: "last_word [t] = le_uint64 (snd (snd t))" by (simp add: last_word_def)
    have f6: "last [t] = t" and f7: "map rec_addr [t] = [rec_addr t]" by simp_all
    show ?thesis
      unfolding True step [unfolded True f4] f1 f2 f3 f5 f6 f7 ..
  next
    case False
    have d: "3 dvd (i + 3)" using Cons.prems(2) by presburger
    have e1: "last_word (t # ts) = last_word ts" using False by (simp add: last_word_def)
    have e2: "i + 3 + 3 * int (length ts) = i + 3 * int (length (t # ts))" by simp
    have e3: "last (t # ts) = last ts" using False by simp
    have e4: "(order @ [rec_addr t]) @ map rec_addr ts = order @ map rec_addr (t # ts)" by simp
    note e5 = last_binding_Cons [of m t ts]
    show ?thesis
      unfolding step Cons.IH [OF wfs d False] e1 e2 e3 e4 e5 ..
  qed
qed

text \<open>
  What the loop makes of 1 to 23 bytes when it stands at the start of a record: the
  first pass always appends an address, decoded from the first eight bytes or, when
  there are fewer, from the word \<open>k\<close> left by the pass before; a third pass, reached with
  17 bytes or more, binds that address to the second word.
\<close>

lemma read_loop_partial:
  assumes "3 dvd i" and "1 \<le> length extra" and "length extra \<le> 23"
  shows "read_loop extra k i loc addr order m =
     (let a' = Sprintf_0x (binary_Read (take 8 extra) k) in
      (order @ [a'],
       if length extra \<le> 16 then m else m(a' \<mapsto> sint (le_uint64 (take 8 (drop 8 extra))))))"
proof -
  have d1: "\<not> 3 dvd (i + 1)" and d2: "\<not> 3 dvd (i + 2)" using assms(1) by presburger+
  have i2: "i + 1 + 1 = i + 2" and i3: "i + 2 + 1 = i + 3" by simp_all
  have nz: "extra \<noteq> []" using assms(2) by auto
  let ?k1 = "binary_Read (take 8 extra) k"
  let ?A = "Sprintf_0x ?k1"
  have s1: "read_loop extra k i loc addr order m =
            read_loop (drop 8 extra) ?k1 (i + 1) (i + 2) ?A (order @ [?A]) m"
    using assms(1) by (simp add: read_loop_step [OF nz] Let_def)
  show ?thesis
  proof (cases "length extra \<le> 8")
    case True
    then show ?thesis using s1 by (simp add: read_loop_Nil Let_def)
  next
    case False
    then have nz2: "drop 8 extra \<noteq> []" by simp
    let ?k2 = "binary_Read (take 8 (drop 8 extra)) ?k1"
    have s2: "read_loop (drop 8 extra) ?k1 (i + 1) (i + 2) ?A (order @ [?A]) m =
              read_loop (drop 16 extra) ?k2 (i + 2) (i + 2) ?A (order @ [?A]) m"
      using d1 by (simp add: read_loop_step [OF nz2] Let_def i2)
    show ?thesis
    proof (cases "length extra \<le> 16")
      case True
      then show ?thesis using s1 s2 by (simp add: read_loop_Nil Let_def)
    next
      case False
      then have nz3: "drop 16 extra \<noteq> []" by simp
      have k2: "?k2 = le_uint64 (take 8 (drop 8 extra))"
        using False by (simp add: binary_Read_def)
      have k3: "binary_Read (take 8 (drop 16 extra)) ?k2 = ?k2"
        using assms(3) by (simp add: binary_Read_def)
      have e: "drop 24 extra = []" using assms(3) by simp
      have s3: "read_loop (drop 16 extra) ?k2 (i + 2) (i + 2) ?A (order @ [?A]) m =
                (order @ [?A], m(?A \<mapsto> sint ?k2))"
        using d2 by (simp add: read_loop_step [OF nz3] Let_def i3 k3 e read_loop_Nil)
      show ?thesis using s1 s2 s3 False k2 by (simp add: Let_def)
    qed
  qed
qed

text \<open>The decoder on a log of well-formed records.\<close>

lemma read_sample_logs_log:
  assumes "\<forall>t\<in>set ts. wf_triple t"
  shows "read_sample_logs (Some (log_bytes ts)) = (map rec_addr ts, last_binding ts)"
proof (cases "ts = []")
  case True
  then show ?thesis
    by (simp add: read_sample_logs_def log_bytes_def last_binding_Nil read_loop_Nil)
next
  case False
  show ?thesis
    using read_loop_log [OF assms _ False, of 0 "[]" 0 0 "''0x000000''" "[]" Map.empty]
    by (simp add: read_sample_logs_def read_loop_Nil)
qed

text \<open>Two records for the address \<open>0x10\<close>, with the counts 5 and 263.\<close>

lemma rec_addr_example:
  "rec_addr ([16, 0, 0, 0, 0, 0, 0, 0], p, c) = ''0x10''"
  by (simp add: rec_addr_def le_uint64_def Sprintf_0x_def fmt_base.simps digit_char_def)

lemma rec_count_example:
  "rec_count (a, p, [5, 0, 0, 0, 0, 0, 0, 0]) = 5"
  "rec_count (a, p, [7, 1, 0, 0, 0, 0, 0, 0]) = 263"
  by (simp_all add: rec_count_def le_uint64_def)

text \<open>
  C3. A log of exactly \<open>N\<close> well-formed records decodes to the \<open>N\<close> addresses in file
  order, a repeated address at each of its positions, and to the mapping that binds
  each address to the count of its last record. A file that cannot be opened gives the
  empty list and the empty mapping, not an error.
\<close>

theorem read_sample_logs_round_trip:
  "((\<forall>t\<in>set ts. wf_triple t) \<longrightarrow>
      read_sample_logs (Some (log_bytes ts)) = (map rec_addr ts, last_binding ts) \<and>
      length (fst (read_sample_logs (Some (log_bytes ts)))) = length ts) \<and>
   read_sample_logs None = ([], Map.empty)"
  using read_sample_logs_log [of ts] by (simp add: read_sample_logs_def)

theorem read_sample_logs_round_trip_witness:
  "read_sample_logs (Some (log_bytes
      [([16, 0, 0, 0, 0, 0, 0, 0], [0, 0, 0, 0, 0, 0, 0, 0], [5, 0, 0, 0, 0, 0, 0, 0]),
       ([16, 0, 0, 0, 0, 0, 0, 0], [0, 0, 0, 0, 0, 0, 0, 0], [7, 1, 0, 0, 0, 0, 0, 0])]))
   = ([''0x10'', ''0x10''], [''0x10'' \<mapsto> 263])"
proof -
  let ?t1 = "([16, 0, 0, 0, 0, 0, 0, 0], [0, 0, 0, 0, 0, 0, 0, 0], [5, 0, 0, 0, 0, 0, 0, 0]) :: triple"
  let ?t2 = "([16, 0, 0, 0, 0, 0, 0, 0], [0, 0, 0, 0, 0, 0, 0, 0], [7, 1, 0, 0, 0, 0, 0, 0]) :: triple"
  have wf: "\<forall>t\<in>set [?t1, ?t2]. wf_triple t" by (simp add: wf_triple_def)
  have m: "last_binding [?t1, ?t2] = [''0x10'' \<mapsto> 263]"
    by (simp add: last_binding_def fun_eq_iff rec_addr_example rec_count_example)
  show ?thesis
    using read_sample_logs_round_trip [of "[?t1, ?t2]"] wf m
    by (simp add: rec_addr_example)
qed

text \<open>
  C4, as the code has it. After \<open>N\<close> well-formed records, 1 to 23 trailing bytes are
  not dropped: the decoder returns the \<open>N\<close> addresses followed by one more address,
  \<open>partial_addr\<close>. The mapping is that of the \<open>N\<close> records while at most 16 bytes
  trail; with 17 to 23 it also binds the extra address to the second trailing word.
\<close>

theorem read_sample_logs_partial_record:
  assumes "\<forall>t\<in>set ts. wf_triple t" and "1 \<le> length extra" and "length extra \<le> 23"
  shows "read_sample_logs (Some (log_bytes ts @ extra)) =
     (map rec_addr ts @ [partial_addr ts extra],
      if length extra \<le> 16 then last_binding ts
      else (last_binding ts)(partial_addr ts extra \<mapsto> sint (le_uint64 (take 8 (drop 8 extra)))))"
proof -
  have pa: "Sprintf_0x (binary_Read (take 8 extra) (last_word ts)) = partial_addr ts extra"
    by (simp add: partial_addr_def binary_Read_def)
  show ?thesis
  proof (cases "ts = []")
    case True
    have "read_loop extra 0 0 0 ''0x000000'' [] Map.empty =
      ([partial_addr ts extra],
       if length extra \<le> 16 then Map.empty
       else [partial_addr ts extra \<mapsto> sint (le_uint64 (take 8 (drop 8 extra)))])"
      using read_loop_partial [OF _ assms(2,3), of 0 0 0 "''0x000000''" "[]" Map.empty] pa True
      by (simp add: Let_def last_word_def)
    then show ?thesis using True
      by (simp add: read_sample_logs_def log_bytes_def last_binding_Nil)
  next
    case False
    have d: "(3::int) dvd 0 + 3 * int (length ts)" by simp
    show ?thesis
      unfolding read_sample_logs_def option.case
        read_loop_log [OF assms(1) dvd_0_right False]
        read_loop_partial [OF d assms(2,3)] Let_def pa
      by simp
  qed
qed

theorem read_sample_logs_partial_record_witness:
  "read_sample_logs (Some (log_bytes
      [([16, 0, 0, 0, 0, 0, 0, 0], [0, 0, 0, 0, 0, 0, 0, 0], [5, 0, 0, 0, 0, 0, 0, 0])] @ [1]))
   = ([''0x10'', ''0x5''], [''0x10'' \<mapsto> 5])"
proof -
  let ?t1 = "([16, 0, 0, 0, 0, 0, 0, 0], [0, 0, 0, 0, 0, 0, 0, 0], [5, 0, 0, 0, 0, 0, 0, 0]) :: triple"
  have wf: "\<forall>t\<in>set [?t1]. wf_triple t" by (simp add: wf_triple_def)
  have pa: "partial_addr [?t1] [1] = ''0x5''"
    by (simp add: partial_addr_def last_word_def le_uint64_def Sprintf_0x_def fmt_base.simps
        digit_char_def)
  show ?thesis
    using read_sample_logs_partial_record [of "[?t1]" "[1]"] wf pa
    by (simp add: rec_addr_example last_binding_single rec_count_example)
qed

text \<open>
  The claim C4 as stated fails: one trailing byte after the record \<open>(0x10, 0, 5)\<close> adds
  the address \<open>0x5\<close> to the decoded order.
\<close>

theorem read_sample_logs_truncation_counterexample:
  "fst (read_sample_logs (Some
     ([16, 0, 0, 0, 0, 0, 0, 0, 0, 0, 0, 0, 0, 0, 0, 0, 5, 0, 0, 0, 0, 0, 0, 0] @ [1])))
     = [''0x10'', ''0x5''] \<and>
   fst (read_sample_logs (Some
     [16, 0, 0, 0, 0, 0, 0, 0, 0, 0, 0, 0, 0, 0, 0, 0, 5, 0, 0, 0, 0, 0, 0, 0]))
     = [''0x10'']"
  by code_simp

subsection \<open>The interval policy\<close>

lemma delayStates_for_3:
  "0 \<le> i \<Longrightarrow> delayStates_for 3 w i st v =
     Some (if slot w i then interval else min (v * 10) 30000, st)"
  by (simp add: numeral_3_eq_3 go_rem_nonneg arr_get_slot Let_def min_def)

lemma delayStates_pos:
  "0 < i \<Longrightarrow> delayStates w i v =
     Some (if slot w i then interval else min (v * 10) 30000, slot w (i - 1))"
  by (simp add: delayStates_def go_rem_nonneg arr_get_slot delayStates_for_3)

lemma delayStates_0: "delayStates w 0 v = Some (interval, True)"
  by (simp add: delayStates_def)





subsection \<open>The classifier\<close>

lemma sqrt_le_iff_sq: "0 \<le> y \<Longrightarrow> sqrt x \<le> y \<longleftrightarrow> x \<le> y\<^sup>2"
  using real_sqrt_le_iff [of x "y\<^sup>2"] by simp

lemma fle_ratio:
  assumes "0 < m" and "0 \<le> c"
  shows "fle (fdiv (sqrt x) m) c \<longleftrightarrow> x \<le> (c * m)\<^sup>2"
proof -
  have "sqrt x / m \<le> c \<longleftrightarrow> sqrt x \<le> c * m"
    using assms(1) by (simp add: pos_divide_le_eq)
  also have "\<dots> \<longleftrightarrow> x \<le> (c * m)\<^sup>2"
    using assms by (simp add: sqrt_le_iff_sq)
  finally show ?thesis using assms(1) by (simp add: fdiv_def)
qed

lemma fle_fdiv: "y \<noteq> 0 \<Longrightarrow> fle (fdiv x y) c \<longleftrightarrow> x / y \<le> c"
  by (simp add: fdiv_def)

lemma window_mean_Arr3: "window_mean (Arr3 a b c) = real_of_int (a + b + c) / 3"
  by (simp add: window_mean_def)

lemma window_stddev_Arr3:
  "window_stddev (Arr3 a b c) =
     sqrt ((real_of_int a - window_mean (Arr3 a b c))\<^sup>2
           + (real_of_int b - window_mean (Arr3 a b c))\<^sup>2
           + (real_of_int c - window_mean (Arr3 a b c))\<^sup>2)"
  by (simp add: window_stddev_def Let_def power2_eq_square)

text \<open>The test \<open>ratio <= t\<close> on a window of positive mean, without the root.\<close>

lemma window_ratio_le:
  assumes "0 < a + b + c" and "0 \<le> t"
  shows "fle (window_ratio (Arr3 a b c)) t \<longleftrightarrow>
     (real_of_int a - real_of_int (a + b + c) / 3)\<^sup>2
     + (real_of_int b - real_of_int (a + b + c) / 3)\<^sup>2
     + (real_of_int c - real_of_int (a + b + c) / 3)\<^sup>2
     \<le> (t * (real_of_int (a + b + c) / 3))\<^sup>2"
proof -
  have m: "0 < window_mean (Arr3 a b c)" using assms(1) by (simp add: window_mean_Arr3)
  show ?thesis
    unfolding window_ratio_def window_stddev_Arr3 fle_ratio [OF m assms(2)]
    by (simp add: window_mean_Arr3)
qed

lemma window_count_slot:
  "window_count w (s mod 3) =
     Some (fdiv (real_of_int \<bar>slot w s - slot w (s + 2)\<bar>) (real_of_int (slot w (s + 2))))"
proof -
  have r: "go_rem (s mod 3 + 2) 3 = (s + 2) mod 3"
    using mod3_cases [of s] by (auto simp: go_rem_nonneg) presburger+
  show ?thesis
    by (simp add: window_count_def r arr_get_slot Let_def abs_if)
qed

lemma judge_delay_total: "\<exists>j. judge_delay w (i mod 3) = Some j"
  by (simp add: judge_delay_def window_count_slot Let_def)

text \<open>
  \<open>judge_delay\<close> is the classifier of the specification with the divisor 1 in the place
  of the number of values: its \<open>stddev\<close> is the root of the sum of the squared deviations.
\<close>

lemma judge_delay_unnormalised: "judge_delay w (s mod 3) = Some (isSuspicious_spec 1 w s)"
proof -
  obtain a b c where w: "w = Arr3 a b c" by (cases w)
  have m: "window_mean w = (\<Sum>a\<leftarrow>arr_list w. real_of_int a) / 3"
    by (simp add: w window_mean_def)
  have sd: "window_stddev w = standard_deviation 1 w"
    unfolding window_stddev_def m standard_deviation_def
    by (simp add: w Let_def power2_eq_square)
  show ?thesis
    unfolding judge_delay_def window_count_slot window_ratio_def sd m isSuspicious_spec_def
    by (auto simp: Let_def)
qed

lemma judge_delay_500_500_500: "judge_delay (Arr3 500 500 500) 0 = Some True"
  by (simp add: judge_delay_def window_count_def go_rem_def window_mean_Arr3 fle_fdiv Let_def)

lemma judge_delay_500_338_500:
  "judge_delay (Arr3 500 338 500) 1 = Some True"
  "judge_delay (Arr3 500 338 500) 2 = Some False"
  by (simp_all add: judge_delay_def window_count_def go_rem_def window_mean_Arr3 fle_fdiv
      window_ratio_le Let_def power2_eq_square)

text \<open>
  C1. The claim fails on the code. On the window \<open>100, 140, 120\<close> at slot 1 the mean is
  120, the relative delta is \<open>40/100\<close>, and the standard deviation is \<open>\<surd>(800/3)\<close>
  (population) or 20 (sample), so the coefficient of variation is below \<open>0.2\<close> and the
  claim's classifier answers true; \<open>judge_delay\<close> takes \<open>\<surd>800\<close> for the standard
  deviation, finds the ratio \<open>0.2357\<close> and answers false.
\<close>

theorem judge_delay_not_standard_deviation:
  "judge_delay (Arr3 100 140 120) 1 = Some False \<and>
   isSuspicious_spec 3 (Arr3 100 140 120) 1 \<and>
   isSuspicious_spec 2 (Arr3 100 140 120) 1"
proof -
  have "judge_delay (Arr3 100 140 120) 1 = Some False"
    by (simp add: judge_delay_def window_count_def go_rem_def window_mean_Arr3 fle_fdiv
        window_ratio_le Let_def power2_eq_square)
  moreover have "isSuspicious_spec 3 (Arr3 100 140 120) 1" "isSuspicious_spec 2 (Arr3 100 140 120) 1"
    by (simp_all add: isSuspicious_spec_def standard_deviation_def slot_def Let_def fdiv_def
        sqrt_le_iff_sq power2_eq_square)
  ultimately show ?thesis by simp
qed



subsection \<open>One cycle of the control loop\<close>

lemma go_rem_neg: "a < 0 \<Longrightarrow> go_rem a 3 = - ((- a) mod 3)"
  by (simp add: go_rem_def sgn_if)

lemma arr_get_neg: "i < 0 \<Longrightarrow> arr_get w i = None"
  by (cases w) simp

text \<open>A negative index makes \<open>delayStates\<close> read outside the array.\<close>

lemma delayStates_Some_nonneg:
  assumes "delayStates w i v = Some x"
  shows "0 \<le> i"
proof (rule ccontr)
  assume "\<not> 0 \<le> i"
  then have neg: "i < 0" by simp
  have r: "go_rem i 3 = 0 \<or> go_rem i 3 < 0"
    using neg mod3_cases [of "- i"] by (auto simp: go_rem_neg)
  show False
  proof (cases "3 dvd i")
    case True
    then have "\<not> 3 dvd (i - 1)" by presburger
    then have "go_rem (i - 1) 3 \<noteq> 0" by (simp add: go_rem_3_0)
    moreover have "go_rem (i - 1) 3 \<le> 0" using neg by (simp add: go_rem_neg)
    ultimately have "arr_get w (go_rem (i - 1) 3) = None" by (simp add: arr_get_neg)
    then show False using assms neg by (simp add: delayStates_def)
  next
    case False
    then have "go_rem i 3 \<noteq> 0" by (simp add: go_rem_3_0)
    with r have "arr_get w (go_rem i 3) = None" by (simp add: arr_get_neg)
    then show False using assms neg
      by (simp add: delayStates_def numeral_3_eq_3 split: Option.bind_splits)
  qed
qed

lemma delayStates_total:
  "0 \<le> i \<Longrightarrow> \<exists>d b. delayStates w i v = Some (d, b)"
  using delayStates_0 [of w v] delayStates_pos [of i w v] by (cases "i = 0") auto

lemma rem_plus2: "0 \<le> i \<Longrightarrow> go_rem (i mod 3 + 2) 3 = (i + 2) mod 3"
  using mod3_cases [of i] by (auto simp: go_rem_nonneg) presburger+

lemma arr_set_slot_upd: "arr_set w (i mod 3) v = Some (slot_upd w i v)"
  using mod3_cases [of i] by (cases w) (auto simp: slot_upd_def)

lemma slot_upd_restore: "slot_upd (slot_upd w i v) i (slot w i) = w"
  using mod3_cases [of i] by (cases w) (auto simp: slot_upd_def slot_def)

lemma notify_slot:
  "notify s (i mod 3) addr addr_acc =
     Some (s\<lparr>last_delay := slot_upd (last_delay s) i True, delay_interval := interval\<rparr>,
           directives addr addr_acc)"
  by (simp add: notify_def arr_set_slot_upd directives_def)

lemma monitor_cycle_failed:
  "monitor_cycle s (addr, acc_num, False) = Some (s, [Sleep (delay_interval s)])"
  by (simp add: monitor_cycle_def)

text \<open>
  The body of the loop on a successful sample, for a non-negative index: the three ways
  through it.
\<close>

lemma monitor_cycle_ok:
  assumes i: "0 \<le> index s"
    and ds: "delayStates (last_delay s) (index s) (delay_interval s) = Some (d, b)"
  shows "monitor_cycle s (addr, acc_num, True) =
     Some (let adj = make_up b acc_num (slot (last_addr_acc s) (index s + 2));
               w = slot_upd (last_addr_acc s) (index s) adj in
           if 3000 < acc_num then
             (s\<lparr>index := index s + 1, delay_interval := interval,
                last_delay := slot_upd (last_delay s) (index s) True\<rparr>,
              directives addr (addr @ '' '' @ Itoa acc_num))
           else if adj \<le> 80 \<or> judge_delay w (index s mod 3) = Some False then
             (s\<lparr>index := index s + 1, delay_interval := d,
                last_addr_acc := (if b then last_addr_acc s else w),
                last_delay := slot_upd (last_delay s) (index s) False\<rparr>,
              [Sleep d])
           else
             (s\<lparr>index := index s + 1, delay_interval := interval,
                last_addr_acc := w,
                last_delay := slot_upd (last_delay s) (index s) True\<rparr>,
              directives addr (addr @ '' '' @ Itoa acc_num)))"
proof -
  let ?W = "last_addr_acc s" and ?i = "index s"
  let ?adj = "make_up b acc_num (slot ?W (?i + 2))"
  let ?w = "slot_upd ?W ?i ?adj"
  have r1: "go_rem ?i 3 = ?i mod 3" using i by (rule go_rem_nonneg)
  have r2: "go_rem (?i mod 3 + 2) 3 = (?i + 2) mod 3" using i by (rule rem_plus2)
  obtain j where j: "judge_delay ?w (?i mod 3) = Some j"
    using judge_delay_total by blast
  show ?thesis
    unfolding monitor_cycle_def
    using j
    by (cases b; cases j) (simp_all add: r1 r2 ds arr_get_slot arr_set_slot_upd notify_slot
        slot_upd_restore Let_def)
qed

lemma monitor_cycle_Some_delayStates:
  assumes "monitor_cycle s (addr, acc_num, True) = Some (s', ev)"
  obtains d b where "delayStates (last_delay s) (index s) (delay_interval s) = Some (d, b)"
    and "0 \<le> index s"
proof -
  obtain x where x: "delayStates (last_delay s) (index s) (delay_interval s) = Some x"
    using assms by (cases "delayStates (last_delay s) (index s) (delay_interval s)")
      (simp_all add: monitor_cycle_def)
  then have "0 \<le> index s" by (rule delayStates_Some_nonneg)
  with x that show ?thesis by (cases x) auto
qed

lemma adjusted_eq:
  "delayStates (last_delay s) (index s) (delay_interval s) = Some (d, b) \<Longrightarrow>
   adjusted s acc_num = make_up b acc_num (slot (last_addr_acc s) (index s + 2))"
  by (simp add: adjusted_def)

lemma set_directives:
  "Send_start p \<in> set (directives addr q) \<longleftrightarrow> Contains addr ''0x'' \<and> p = q"
  by (auto simp: directives_def)

lemma directives_0xdead:
  "directives ''0xdead'' p = [Send_start p, Sleep 8050, Send_stop ''0x00000 0'', Sleep 500]"
  by (simp add: directives_def duration_def stopSig_def interval_def)

lemma Itoa_examples: "Itoa 3001 = ''3001''" "Itoa 10 = ''10''" "Itoa 500 = ''500''"
  by (simp_all add: Itoa_def fmt_base.simps digit_char_def)

subsection \<open>The first cycles from the initial state\<close>

lemma init_delayStates:
  "delayStates (last_delay monitor_init) (index monitor_init) (delay_interval monitor_init)
     = Some (500, True)"
  "0 \<le> index monitor_init"
  by (simp_all add: monitor_init_def delayStates_0 interval_def)

text \<open>The first cycle on the count 500: the window \<open>500, 500, 500\<close> is judged stable.\<close>

lemma noise_cycle0:
  "monitor_cycle monitor_init (a1, 500, True) =
     Some (\<lparr>last_addr_acc = Arr3 500 500 500, last_delay = Arr3 True True True,
            index = 1, delay_interval = 500\<rparr>,
           directives a1 (a1 @ '' '' @ Itoa 500))"
  unfolding monitor_cycle_ok [OF init_delayStates(2,1)]
  by (simp add: monitor_init_def Let_def make_up_def slot_def slot_upd_def
      judge_delay_500_500_500 interval_def)

text \<open>The second cycle on the count 10: the count is made up to 338.\<close>

lemma noise_cycle1:
  "monitor_cycle \<lparr>last_addr_acc = Arr3 500 500 500, last_delay = Arr3 True True True,
            index = 1, delay_interval = 500\<rparr> (a2, 10, True) =
     Some (\<lparr>last_addr_acc = Arr3 500 338 500, last_delay = Arr3 True True True,
            index = 2, delay_interval = 500\<rparr>,
           directives a2 (a2 @ '' '' @ Itoa 10))"
proof -
  let ?s = "\<lparr>last_addr_acc = Arr3 500 500 500, last_delay = Arr3 True True True,
            index = 1, delay_interval = 500\<rparr>"
  have ds: "delayStates (last_delay ?s) (index ?s) (delay_interval ?s) = Some (500, True)"
    by (simp add: delayStates_pos slot_def interval_def)
  have i: "0 \<le> index ?s" by simp
  show ?thesis
    unfolding monitor_cycle_ok [OF i ds]
    by (simp add: Let_def make_up_def go_int_def slot_def slot_upd_def
        judge_delay_500_338_500 interval_def)
qed

text \<open>The third cycle on the count 500: the window \<open>500, 338, 500\<close> is not stable.\<close>

lemma noise_cycle2:
  "monitor_cycle \<lparr>last_addr_acc = Arr3 500 338 500, last_delay = Arr3 True True True,
            index = 2, delay_interval = 500\<rparr> (a3, 500, True) =
     Some (\<lparr>last_addr_acc = Arr3 500 338 500, last_delay = Arr3 True True False,
            index = 3, delay_interval = 500\<rparr>,
           [Sleep 500])"
proof -
  let ?s = "\<lparr>last_addr_acc = Arr3 500 338 500, last_delay = Arr3 True True True,
            index = 2, delay_interval = 500\<rparr>"
  have ds: "delayStates (last_delay ?s) (index ?s) (delay_interval ?s) = Some (500, True)"
    by (simp add: delayStates_pos slot_def interval_def)
  have i: "0 \<le> index ?s" by simp
  show ?thesis
    unfolding monitor_cycle_ok [OF i ds]
    by (simp add: Let_def make_up_def go_int_def slot_def slot_upd_def
        judge_delay_500_338_500 interval_def)
qed

lemma noise_loop:
  "monitor_loop monitor_init [(a1, 500, True), (a2, 10, True), (a3, 500, True)] =
     Some (\<lparr>last_addr_acc = Arr3 500 338 500, last_delay = Arr3 True True False,
            index = 3, delay_interval = 500\<rparr>,
           directives a1 (a1 @ '' '' @ Itoa 500) @ directives a2 (a2 @ '' '' @ Itoa 10)
             @ [Sleep 500])"
  by (simp add: noise_cycle0 noise_cycle1 noise_cycle2)

text \<open>The first cycle on the count 3001.\<close>

lemma outlier_cycle0:
  "monitor_cycle monitor_init (a1, 3001, True) =
     Some (\<lparr>last_addr_acc = Arr3 500 500 500, last_delay = Arr3 True True True,
            index = 1, delay_interval = 500\<rparr>,
           directives a1 (a1 @ '' '' @ Itoa 3001))"
  unfolding monitor_cycle_ok [OF init_delayStates(2,1)]
  by (simp add: monitor_init_def Let_def slot_upd_def interval_def)

subsection \<open>When a start directive is sent\<close>

text \<open>
  C5, as the code has it. A cycle sends a start directive only on a successful sample
  whose address contains \<open>0x\<close>, and then either the raw count exceeds 3000, the window
  is left as it was and \<open>judge_delay\<close> is not consulted, or the count is at most 3000,
  the adjusted count exceeds 80, it has been committed into the slot of the cycle and
  \<open>judge_delay\<close> answers true on the window so updated.
\<close>

theorem start_directive_only_if:
  assumes "monitor_cycle s (addr, acc_num, ok) = Some (s', ev)" and "Send_start p \<in> set ev"
  shows "ok \<and> Contains addr ''0x'' \<and> p = addr @ '' '' @ Itoa acc_num \<and>
     (if 3000 < acc_num then last_addr_acc s' = last_addr_acc s
      else 80 < adjusted s acc_num \<and>
           last_addr_acc s' = slot_upd (last_addr_acc s) (index s) (adjusted s acc_num) \<and>
           judge_delay (last_addr_acc s') (index s mod 3) = Some True)"
proof -
  have ok: ok using assms by (cases ok) (auto simp: monitor_cycle_failed)
  then have run: "monitor_cycle s (addr, acc_num, True) = Some (s', ev)" using assms(1) by simp
  then obtain d b where ds: "delayStates (last_delay s) (index s) (delay_interval s) = Some (d, b)"
    and i: "0 \<le> index s" by (rule monitor_cycle_Some_delayStates)
  note adj = adjusted_eq [OF ds, of acc_num]
  obtain j where j: "judge_delay (slot_upd (last_addr_acc s) (index s) (adjusted s acc_num))
                       (index s mod 3) = Some j"
    using judge_delay_total by blast
  show ?thesis
    using run assms(2) ok j unfolding monitor_cycle_ok [OF i ds] adj [symmetric] Let_def
    by (cases j) (auto simp: set_directives split: if_splits)
qed

theorem start_directive_only_if_witness:
  "Contains ''0xdead'' ''0x'' \<and> 80 < adjusted monitor_init 500 \<and>
   slot_upd (last_addr_acc monitor_init) (index monitor_init) (adjusted monitor_init 500)
     = Arr3 500 500 500 \<and>
   judge_delay (Arr3 500 500 500) (index monitor_init mod 3) = Some True"
proof -
  have run: "monitor_cycle monitor_init (''0xdead'', 500, True) =
     Some (\<lparr>last_addr_acc = Arr3 500 500 500, last_delay = Arr3 True True True,
            index = 1, delay_interval = 500\<rparr>,
           [Send_start ''0xdead 500'', Sleep 8050, Send_stop ''0x00000 0'', Sleep 500])"
    by (simp add: noise_cycle0 directives_0xdead Itoa_examples)
  have sent: "Send_start ''0xdead 500'' \<in>
     set [Send_start ''0xdead 500'', Sleep 8050, Send_stop ''0x00000 0'', Sleep 500]"
    by simp
  have adj: "adjusted monitor_init 500 = 500"
    unfolding adjusted_eq [OF init_delayStates(1)]
    by (simp add: make_up_def monitor_init_def slot_def)
  have upd: "slot_upd (last_addr_acc monitor_init) (index monitor_init) 500 = Arr3 500 500 500"
    by (simp add: monitor_init_def slot_upd_def)
  show ?thesis
    using start_directive_only_if [OF run sent] unfolding adj upd by simp
qed

text \<open>
  The claim C5 as stated fails: the first cycle from the initial state, on the raw
  count 3001, hands the start directive \<open>0xdead 3001\<close> to the channel, and commits no
  new value into the window.
\<close>

theorem outlier_sends_start_counterexample:
  "monitor_cycle monitor_init (''0xdead'', 3001, True) =
     Some (\<lparr>last_addr_acc = Arr3 500 500 500, last_delay = Arr3 True True True,
            index = 1, delay_interval = 500\<rparr>,
           [Send_start ''0xdead 3001'', Sleep 8050, Send_stop ''0x00000 0'', Sleep 500])"
  by (simp add: outlier_cycle0 directives_0xdead Itoa_examples)

text \<open>
  C7. A cycle on a raw count above 3000 leaves the slot it visits, and the whole
  window, as it was before the cycle, whatever the counts in the window are.
\<close>

theorem outlier_keeps_slot:
  assumes "0 \<le> index s" and "3000 < acc_num"
  shows "\<exists>s' ev. monitor_cycle s (addr, acc_num, True) = Some (s', ev) \<and>
           last_addr_acc s' = last_addr_acc s \<and>
           slot (last_addr_acc s') (index s) = slot (last_addr_acc s) (index s)"
proof -
  obtain d b where ds: "delayStates (last_delay s) (index s) (delay_interval s) = Some (d, b)"
    using delayStates_total [OF assms(1)] by blast
  show ?thesis
    unfolding monitor_cycle_ok [OF assms(1) ds] using assms(2) by (simp add: Let_def)
qed

theorem outlier_keeps_slot_witness:
  "\<exists>s' ev. monitor_cycle
       \<lparr>last_addr_acc = Arr3 200 205 198, last_delay = Arr3 False True False,
        index = 4, delay_interval = 5000\<rparr> (''0xdead'', 3001, True) = Some (s', ev) \<and>
     last_addr_acc s' = Arr3 200 205 198 \<and> slot (last_addr_acc s') 4 = 205"
  using outlier_keeps_slot [of "\<lparr>last_addr_acc = Arr3 200 205 198,
      last_delay = Arr3 False True False, index = 4, delay_interval = 5000\<rparr>" 3001 "''0xdead''"]
  by (simp add: slot_def)

subsection \<open>The noise scenario\<close>

text \<open>
  C6, as the code has it. From the initial state, the cycles on the counts 500, 10 and
  500 mitigate twice: the first cycle finds the window \<open>500, 500, 500\<close> stable, the second
  makes the count 10 up to 338 and finds \<open>500, 338, 500\<close> stable, and each hands a start
  directive to the channel when its address contains \<open>0x\<close>; the third cycle sends nothing.
\<close>

theorem noise_scenario:
  "monitor [(a1, 500, True), (a2, 10, True), (a3, 500, True)] =
     Some (\<lparr>last_addr_acc = Arr3 500 338 500, last_delay = Arr3 True True False,
            index = 3, delay_interval = 500\<rparr>,
           Sleep 40000 #
           (if Contains a1 ''0x'' then [Send_start (a1 @ '' 500'')] else [])
           @ [Sleep 8050, Send_stop ''0x00000 0'', Sleep 500]
           @ (if Contains a2 ''0x'' then [Send_start (a2 @ '' 10'')] else [])
           @ [Sleep 8050, Send_stop ''0x00000 0'', Sleep 500]
           @ [Sleep 500])"
  unfolding monitor_def noise_loop
  by (simp add: directives_def Itoa_examples duration_def interval_def stopSig_def)

theorem noise_scenario_witness:
  "map_option snd (monitor [(''0x10'', 500, True), (''10'', 10, True), (''0x10'', 500, True)]) =
     Some [Sleep 40000,
           Send_start ''0x10 500'', Sleep 8050, Send_stop ''0x00000 0'', Sleep 500,
           Sleep 8050, Send_stop ''0x00000 0'', Sleep 500,
           Sleep 500]"
  using noise_scenario [of "''0x10''" "''10''" "''0x10''"] by simp

text \<open>
  The claim C6 as stated fails: with the address \<open>0xdead\<close> the first and the second
  cycle each hand a start directive to the channel.
\<close>

theorem noise_scenario_counterexample:
  "map_option snd
     (monitor [(''0xdead'', 500, True), (''0xdead'', 10, True), (''0xdead'', 500, True)]) =
     Some [Sleep 40000,
           Send_start ''0xdead 500'', Sleep 8050, Send_stop ''0x00000 0'', Sleep 500,
           Send_start ''0xdead 10'', Sleep 8050, Send_stop ''0x00000 0'', Sleep 500,
           Sleep 500]"
  unfolding monitor_def noise_loop
  by (simp add: directives_0xdead Itoa_examples)

subsection \<open>At most one directive is active\<close>

text \<open>
  The two kinds of send differ in their payloads too: for an address that the decoder
  prints, the start directive is never the stop signal, since \<open>%x\<close> prints no leading
  zeros.
\<close>

lemma digit_char_zero: "d < 16 \<Longrightarrow> digit_char d = CHR ''0'' \<longleftrightarrow> d = 0"
proof -
  assume "d < 16"
  then have "d = 0 \<or> d = 1 \<or> d = 2 \<or> d = 3 \<or> d = 4 \<or> d = 5 \<or> d = 6 \<or> d = 7
      \<or> d = 8 \<or> d = 9 \<or> d = 10 \<or> d = 11 \<or> d = 12 \<or> d = 13 \<or> d = 14 \<or> d = 15"
    by arith
  then show ?thesis by (elim disjE) (simp_all add: digit_char_def)
qed

lemma fmt_base_16_head:
  "(n = 0 \<and> fmt_base 16 n = ''0'') \<or>
   (0 < n \<and> fmt_base 16 n \<noteq> [] \<and> hd (fmt_base 16 n) \<noteq> CHR ''0'')"
proof (induction n rule: less_induct)
  case (less n)
  show ?case
  proof (cases "n < 16")
    case True
    then show ?thesis
      using digit_char_zero [of n] by (subst (1 2 3) fmt_base.simps) auto
  next
    case False
    then have "n div 16 < n" "0 < n div 16" by (simp_all add: div_greater_zero_iff)
    with less.IH [of "n div 16"] have "fmt_base 16 (n div 16) \<noteq> []"
      "hd (fmt_base 16 (n div 16)) \<noteq> CHR ''0''" by auto
    then show ?thesis using False
      by (subst (1 2 3) fmt_base.simps) auto
  qed
qed

lemma start_payload_not_stopSig: "Sprintf_0x k @ '' '' @ Itoa n \<noteq> stopSig"
proof
  assume eq: "Sprintf_0x k @ '' '' @ Itoa n = stopSig"
  show False
  proof (cases "sint k < 0")
    case True
    then show False using eq by (simp add: Sprintf_0x_def stopSig_def)
  next
    case False
    let ?b = "fmt_base 16 (nat (sint k))"
    from eq False have b: "?b @ '' '' @ Itoa n = ''00000 0''"
      by (simp add: Sprintf_0x_def stopSig_def)
    from fmt_base_16_head [of "nat (sint k)"] show False
    proof
      assume "nat (sint k) = 0 \<and> ?b = ''0''"
      then have "?b = ''0''" by blast
      then show False using b by (simp only: append_Cons append_Nil list.inject) simp
    next
      assume h: "0 < nat (sint k) \<and> ?b \<noteq> [] \<and> hd ?b \<noteq> CHR ''0''"
      then obtain c cs where "?b = c # cs" by (cases ?b) auto
      then show False using b h by simp
    qed
  qed
qed

lemma no_overlap_append:
  "no_overlap a (xs @ ys) = (no_overlap a xs \<and> no_overlap (active_after a xs) ys)"
  by (induction a xs rule: no_overlap.induct) auto

lemma active_after_append:
  "active_after a (xs @ ys) = active_after (active_after a xs) ys"
  by (induction a xs rule: active_after.induct) auto

text \<open>A cycle sleeps, or it mitigates.\<close>

lemma monitor_cycle_events:
  assumes "monitor_cycle s r = Some (s', ev)"
  shows "(\<exists>d. ev = [Sleep d]) \<or> (\<exists>addr p. ev = directives addr p)"
proof -
  obtain addr acc_num ok where r: "r = (addr, acc_num, ok)" by (cases r)
  show ?thesis
  proof (cases ok)
    case False
    then show ?thesis using assms r by (auto simp: monitor_cycle_failed)
  next
    case True
    then have run: "monitor_cycle s (addr, acc_num, True) = Some (s', ev)" using assms r by simp
    then obtain d b where ds: "delayStates (last_delay s) (index s) (delay_interval s) = Some (d, b)"
      and i: "0 \<le> index s" by (rule monitor_cycle_Some_delayStates)
    show ?thesis
      using run unfolding monitor_cycle_ok [OF i ds] Let_def
      by (auto split: if_splits)
  qed
qed

lemma directives_closed:
  "no_overlap False (directives addr p)" "\<not> active_after False (directives addr p)"
  by (simp_all add: directives_def)

lemma monitor_cycle_closed:
  assumes "monitor_cycle s r = Some (s', ev)"
  shows "no_overlap False ev \<and> \<not> active_after False ev"
  using monitor_cycle_events [OF assms] directives_closed by auto

lemma monitor_loop_closed:
  "monitor_loop s rs = Some (s', evs) \<Longrightarrow> no_overlap False evs \<and> \<not> active_after False evs"
proof (induction rs arbitrary: s s' evs)
  case Nil
  then show ?case by simp
next
  case (Cons r rs)
  from Cons.prems obtain s1 ev evs1 where c: "monitor_cycle s r = Some (s1, ev)"
    and l: "monitor_loop s1 rs = Some (s', evs1)" and e: "evs = ev @ evs1"
    by (auto split: Option.bind_splits)
  show ?case
    using monitor_cycle_closed [OF c] Cons.IH [OF l]
    by (simp add: e no_overlap_append active_after_append)
qed

text \<open>From a non-negative index a cycle returns, and the index stays non-negative.\<close>

lemma monitor_cycle_total:
  assumes "0 \<le> index s"
  shows "\<exists>s' ev. monitor_cycle s r = Some (s', ev) \<and> 0 \<le> index s'"
proof -
  obtain addr acc_num ok where r: "r = (addr, acc_num, ok)" by (cases r)
  show ?thesis
  proof (cases ok)
    case False
    then show ?thesis using assms r by (simp add: monitor_cycle_failed)
  next
    case True
    obtain d b where ds: "delayStates (last_delay s) (index s) (delay_interval s) = Some (d, b)"
      using delayStates_total [OF assms] by blast
    have "\<exists>s' ev. monitor_cycle s (addr, acc_num, True) = Some (s', ev) \<and> 0 \<le> index s'"
      using assms unfolding monitor_cycle_ok [OF assms ds] Let_def by simp
    then show ?thesis using r True by simp
  qed
qed

lemma monitor_loop_total:
  "0 \<le> index s \<Longrightarrow> \<exists>s' evs. monitor_loop s rs = Some (s', evs)"
proof (induction rs arbitrary: s)
  case Nil
  show ?case by simp
next
  case (Cons r rs)
  obtain s1 ev where c: "monitor_cycle s r = Some (s1, ev)" and i: "0 \<le> index s1"
    using monitor_cycle_total [OF Cons.prems] by blast
  obtain s2 evs where "monitor_loop s1 rs = Some (s2, evs)"
    using Cons.IH [OF i] by blast
  with c show ?case by simp
qed

text \<open>
  C8. \<open>monitor\<close> returns on every list of samples, and in its events no start directive
  is sent while another is active, and none is active when a cycle ends; the same holds
  for the loop from any state of non-negative index. A cycle that sends a start
  directive sends, after the mitigation window, the stop directive \<open>0x00000 0\<close>.
\<close>

theorem single_active_directive:
  "(\<exists>s' evs. monitor rs = Some (s', evs) \<and> no_overlap False evs \<and> \<not> active_after False evs) \<and>
   (0 \<le> index s \<longrightarrow>
      (\<exists>s' evs. monitor_loop s rs = Some (s', evs) \<and>
         no_overlap False evs \<and> \<not> active_after False evs)) \<and>
   (monitor_cycle s r = Some (s1, ev) \<and> Send_start p \<in> set ev \<longrightarrow>
      ev = [Send_start p, Sleep 8050, Send_stop ''0x00000 0'', Sleep 500])"
proof -
  have cyc: "ev = [Send_start p, Sleep 8050, Send_stop ''0x00000 0'', Sleep 500]"
    if "monitor_cycle s r = Some (s1, ev)" and "Send_start p \<in> set ev"
    using monitor_cycle_events [OF that(1)] that(2)
    by (auto simp: directives_def stopSig_def duration_def interval_def split: if_splits)
  have run: "\<exists>s' evs. monitor_loop t rs = Some (s', evs) \<and>
         no_overlap False evs \<and> \<not> active_after False evs" if "0 \<le> index t" for t
    using monitor_loop_total [OF that, of rs] monitor_loop_closed [of t rs] by blast
  obtain s' evs where m: "monitor_loop monitor_init rs = Some (s', evs)"
    and c: "no_overlap False evs" "\<not> active_after False evs"
    using run [of monitor_init] by (auto simp: monitor_init_def)
  have "monitor rs = Some (s', Sleep 40000 # evs)" by (simp add: monitor_def m)
  with c have "\<exists>s' evs. monitor rs = Some (s', evs) \<and> no_overlap False evs \<and>
      \<not> active_after False evs" by simp
  with cyc run [of s] show ?thesis by blast
qed

theorem single_active_directive_witness:
  "0 \<le> index monitor_init \<and>
   (\<exists>s' evs. monitor_loop monitor_init
       [(''0xdead'', 500, True), (''0xdead'', 10, True), (''0xdead'', 500, True)] =
       Some (s', evs) \<and> no_overlap False evs \<and> \<not> active_after False evs) \<and>
   monitor_cycle monitor_init (''0xdead'', 500, True) =
     Some (\<lparr>last_addr_acc = Arr3 500 500 500, last_delay = Arr3 True True True,
            index = 1, delay_interval = 500\<rparr>,
           [Send_start ''0xdead 500'', Sleep 8050, Send_stop ''0x00000 0'', Sleep 500])"
proof -
  let ?rs = "[(''0xdead'', 500, True), (''0xdead'', 10, True), (''0xdead'', 500, True)]"
  let ?s1 = "\<lparr>last_addr_acc = Arr3 500 500 500, last_delay = Arr3 True True True,
            index = 1, delay_interval = 500\<rparr>"
  let ?ev = "[Send_start ''0xdead 500'', Sleep 8050, Send_stop ''0x00000 0'', Sleep 500]"
  have cyc: "monitor_cycle monitor_init (''0xdead'', 500, True) = Some (?s1, ?ev)"
    by (simp add: noise_cycle0 directives_0xdead Itoa_examples)
  have i: "0 \<le> index monitor_init" by (simp add: monitor_init_def)
  have "\<exists>s' evs. monitor_loop monitor_init ?rs = Some (s', evs) \<and>
          no_overlap False evs \<and> \<not> active_after False evs"
    using single_active_directive
      [of ?rs monitor_init "(''0xdead'', 500, True)" ?s1 ?ev "''0xdead 500''"] i
    by blast
  with cyc i show ?thesis by blast
qed

subsection \<open>The profiler cycle\<close>

lemma chk_prerequisites_ok:
  "fst (chk_prerequisites e) \<longleftrightarrow>
     (stat_DBGFS e = Stat_dir \<or> insmod_ok e) \<and> stat_DBGFS_PIDS e = Stat_other"
  by (auto simp: chk_prerequisites_def Let_def)

lemma chk_prerequisites_actions:
  "set (snd (chk_prerequisites e)) \<subseteq> {Rename_log, Insmod}" "distinct (snd (chk_prerequisites e))"
  by (auto simp: chk_prerequisites_def Let_def)

text \<open>
  C9. \<open>get_target_addr\<close> returns the error result \<open>("", -1, false)\<close> unless a target was
  found, the module is there or its insertion succeeds, the pids file exists and is
  not a directory, the removal of the module succeeds and the decoded log is not empty;
  in that case it returns the first address of the decoder's order with the count the
  mapping gives it. It performs no operation on the outside twice.
\<close>

theorem get_target_addr_result:
  "fst (get_target_addr e) =
     (if get_pid e \<noteq> [] \<and> (stat_DBGFS e = Stat_dir \<or> insmod_ok e) \<and>
         stat_DBGFS_PIDS e = Stat_other \<and> rmmod_ok e \<and>
         fst (read_sample_logs (log_file e)) \<noteq> []
      then (fst (read_sample_logs (log_file e)) ! 0,
            map_index (snd (read_sample_logs (log_file e)))
              (fst (read_sample_logs (log_file e)) ! 0), True)
      else ([], - 1, False)) \<and>
   distinct (snd (get_target_addr e))"
proof (cases "get_pid e")
  case Nil
  then show ?thesis by (simp add: get_target_addr_def)
next
  case (Cons pid targets)
  obtain st a1 where c: "chk_prerequisites e = (st, a1)" by (cases "chk_prerequisites e")
  obtain order m where d: "read_sample_logs (log_file e) = (order, m)"
    by (cases "read_sample_logs (log_file e)")
  have st: "st \<longleftrightarrow> (stat_DBGFS e = Stat_dir \<or> insmod_ok e) \<and> stat_DBGFS_PIDS e = Stat_other"
    using chk_prerequisites_ok [of e] c by simp
  have a1: "set a1 \<subseteq> {Rename_log, Insmod}" "distinct a1"
    using chk_prerequisites_actions [of e] c by simp_all
  have dis: "distinct (a1 @ [Echo_pid pid, Tracing_on, Sleep_100ms, Tracing_off, Rmmod, Open_log])"
    using a1 by auto
  show ?thesis
    using st dis
    by (auto simp: get_target_addr_def Cons c d exit_handler_def Let_def)
qed

theorem get_target_addr_result_witness:
  "fst (get_target_addr
     \<lparr>get_pid = [''4242''], stat_logPath = Stat_other, stat_DBGFS = Stat_err,
      insmod_ok = True, stat_DBGFS_PIDS = Stat_other, rmmod_ok = True,
      log_file = Some (log_bytes
        [([16, 0, 0, 0, 0, 0, 0, 0], [0, 0, 0, 0, 0, 0, 0, 0], [5, 0, 0, 0, 0, 0, 0, 0])])\<rparr>)
     = (''0x10'', 5, True) \<and>
   fst (get_target_addr
     \<lparr>get_pid = [''4242''], stat_logPath = Stat_other, stat_DBGFS = Stat_err,
      insmod_ok = True, stat_DBGFS_PIDS = Stat_other, rmmod_ok = False,
      log_file = Some (log_bytes
        [([16, 0, 0, 0, 0, 0, 0, 0], [0, 0, 0, 0, 0, 0, 0, 0], [5, 0, 0, 0, 0, 0, 0, 0])])\<rparr>)
     = ([], - 1, False)"
proof -
  let ?t1 = "([16, 0, 0, 0, 0, 0, 0, 0], [0, 0, 0, 0, 0, 0, 0, 0], [5, 0, 0, 0, 0, 0, 0, 0]) :: triple"
  let ?e = "\<lambda>removed. \<lparr>get_pid = [''4242''], stat_logPath = Stat_other, stat_DBGFS = Stat_err,
      insmod_ok = True, stat_DBGFS_PIDS = Stat_other, rmmod_ok = removed,
      log_file = Some (log_bytes [?t1])\<rparr>"
  have wf: "\<forall>t\<in>set [?t1]. wf_triple t" by (simp add: wf_triple_def)
  have log: "read_sample_logs (Some (log_bytes [?t1])) = ([''0x10''], [''0x10'' \<mapsto> 5])"
    unfolding read_sample_logs_log [OF wf]
    by (simp add: rec_addr_example last_binding_single rec_count_example)
  have v: "fst (get_target_addr (?e True)) = (''0x10'', 5, True)"
    using get_target_addr_result [of "?e True", THEN conjunct1] by (simp add: log map_index_def)
  have e: "fst (get_target_addr (?e False)) = ([], - 1, False)"
    using get_target_addr_result [of "?e False", THEN conjunct1] by simp
  show ?thesis using v e by simp
qed

end
